theory Spec2Isabelle
  imports Complex_Main "HOL-Library.Multiset"
begin

section \<open>Numeric model\<close>

text \<open>
  The scripts compute with Python floats. They are modelled here as real numbers: every
  arithmetic operation returns the exact mathematical value, and the exceptions that
  Python raises on a domain violation (\<^verbatim>\<open>ZeroDivisionError\<close> for \<^verbatim>\<open>x / 0\<close>,
  \<^verbatim>\<open>ValueError\<close> for \<^verbatim>\<open>math.log\<close> of a non-positive argument, \<^verbatim>\<open>KeyError\<close> for a
  missing dictionary key, \<^verbatim>\<open>TypeError\<close> for subscripting \<^verbatim>\<open>None\<close>) are values of a
  sum type. Rounding error, overflow to infinity and NaN are outside this model.
\<close>

datatype error = ZeroDivisionError | ValueError | KeyError | TypeError

fun bind_err :: "error + 'a \<Rightarrow> ('a \<Rightarrow> error + 'b) \<Rightarrow> error + 'b" where
  "bind_err (Inl e) f = Inl e"
| "bind_err (Inr x) f = f x"

text \<open>\<^verbatim>\<open>phi = (1 + sqrt(5)) / 2\<close>\<close>

definition phi :: real where
  "phi = (1 + sqrt 5) / 2"

text \<open>\<^verbatim>\<open>x / y\<close> on floats.\<close>

definition div_py :: "real \<Rightarrow> real \<Rightarrow> error + real" where
  "div_py x y = (if y = 0 then Inl ZeroDivisionError else Inr (x / y))"

text \<open>\<^verbatim>\<open>math.log(x)\<close>.\<close>

definition log_py :: "real \<Rightarrow> error + real" where
  "log_py x = (if x \<le> 0 then Inl ValueError else Inr (ln x))"

text \<open>\<^verbatim>\<open>round(x)\<close> with one argument: the nearest integer, a tie going to the even one.\<close>

definition round_py :: "real \<Rightarrow> int" where
  "round_py x =
     (let f = \<lfloor>x\<rfloor>; d = x - of_int f in
      if d < 1 / 2 then f
      else if 1 / 2 < d then f + 1
      else if even f then f else f + 1)"

text \<open>The line \<^verbatim>\<open>n = log(mass/m_e) / log(phi)\<close>, which every loader repeats.\<close>

definition exponent :: "real \<Rightarrow> real \<Rightarrow> error + real" where
  "exponent mass m_e =
     bind_err (div_py mass m_e) (\<lambda>r.
     bind_err (log_py r) (\<lambda>l.
     bind_err (log_py phi) (\<lambda>d.
     div_py l d)))"

section \<open>The store\<close>

text \<open>
  A row of the \<^verbatim>\<open>particles\<close> table, with the columns the loaders select: name, mass_gev,
  category, generation and spin_half (the last two may be NULL).
\<close>

record row =
  r_name :: string
  r_mass :: real
  r_category :: string
  r_generation :: "int option"
  r_spin_half :: "int option"

text \<open>
  \<^verbatim>\<open>cursor.execute("SELECT mass_gev FROM particles WHERE name='electron'")\<close> followed by
  \<^verbatim>\<open>m_e = cursor.fetchone()[0]\<close>: without an electron row \<^verbatim>\<open>fetchone()\<close> is \<^verbatim>\<open>None\<close>.
\<close>

definition fetch_m_e :: "row list \<Rightarrow> error + real" where
  "fetch_m_e db =
     (case find (\<lambda>r. r_name r = ''electron'') db of
        None \<Rightarrow> Inl TypeError
      | Some r \<Rightarrow> Inr (r_mass r))"

text \<open>A \<^verbatim>\<open>for\<close> loop whose body may raise: the first exception ends the loop.\<close>

fun for_each :: "('a \<Rightarrow> error + 'b) \<Rightarrow> 'a list \<Rightarrow> error + 'b list" where
  "for_each f [] = Inr []"
| "for_each f (x # xs) =
     bind_err (f x) (\<lambda>y. bind_err (for_each f xs) (\<lambda>ys. Inr (y # ys)))"

section \<open>quantum_number_analysis.py\<close>

record particle =
  p_name :: string
  p_mass :: real
  p_n :: real
  p_q :: int
  p_category :: string
  p_generation :: int

text \<open>The body of the loop of \<^verbatim>\<open>analyze_quantum_numbers\<close> over the fetched rows.\<close>

definition quantum_row :: "real \<Rightarrow> row \<Rightarrow> error + particle" where
  "quantum_row m_e r =
     bind_err (exponent (r_mass r) m_e) (\<lambda>n.
       let n_quantized = of_int (round_py (n * 4)) / 4;
           q = 4 * n_quantized
       in Inr \<lparr>p_name = r_name r, p_mass = r_mass r, p_n = n_quantized,
               p_q = round_py q, p_category = r_category r,
               p_generation = (case r_generation r of None \<Rightarrow> 0 | Some g \<Rightarrow> g)\<rparr>)"

text \<open>
  The loading part of \<^verbatim>\<open>analyze_quantum_numbers\<close>: the electron mass, then the rows
  \<^verbatim>\<open>WHERE mass_gev > 0 ORDER BY mass_gev\<close>, each through the loop body.
\<close>

definition analyze_quantum_numbers :: "row list \<Rightarrow> error + particle list" where
  "analyze_quantum_numbers db =
     bind_err (fetch_m_e db) (\<lambda>m_e.
       for_each (quantum_row m_e) (sort_key r_mass (filter (\<lambda>r. 0 < r_mass r) db)))"

section \<open>model_builder_clean.py\<close>

record mb_particle =
  mb_name :: string
  mb_mass :: real
  mb_n :: real
  mb_q :: real
  mb_category :: string
  mb_spin :: real

text \<open>
  The body of the loop of \<^verbatim>\<open>load_particle_data\<close>; here \<^verbatim>\<open>q = n_quantized * 4\<close> stays a
  float. \<^verbatim>\<open>spin_half * 0.5 if spin_half else 0\<close> takes the else branch for NULL and for 0.
\<close>

definition load_row :: "real \<Rightarrow> row \<Rightarrow> error + mb_particle" where
  "load_row m_e r =
     bind_err (exponent (r_mass r) m_e) (\<lambda>n.
       let n_quantized = of_int (round_py (n * 4)) / 4;
           q = n_quantized * 4
       in Inr \<lparr>mb_name = r_name r, mb_mass = r_mass r, mb_n = n_quantized,
               mb_q = q, mb_category = r_category r,
               mb_spin = (case r_spin_half r of
                            None \<Rightarrow> 0
                          | Some s \<Rightarrow> if s = 0 then 0 else of_int s * 0.5)\<rparr>)"


section \<open>The loaders with a table of exact codes\<close>

text \<open>A dictionary literal is an association list; \<^verbatim>\<open>d[k]\<close> raises \<^verbatim>\<open>KeyError\<close> on a missing key.\<close>

definition subscript :: "(string \<times> int) list \<Rightarrow> string \<Rightarrow> error + int" where
  "subscript d k = (case map_of d k of None \<Rightarrow> Inl KeyError | Some v \<Rightarrow> Inr v)"

text \<open>\<^verbatim>\<open>exact_q_values\<close> of \<^verbatim>\<open>a5_casimir_ratio.py\<close>.\<close>

definition exact_q_values :: "(string \<times> int) list" where
  "exact_q_values =
     [(''electron'', 0), (''electron_neutrino'', -224), (''muon_neutrino'', -180),
      (''tau_neutrino'', -162), (''up_quark'', 12), (''down_quark'', 18),
      (''strange_quark'', 44), (''charm_quark'', 65), (''bottom_quark'', 75),
      (''top_quark'', 106), (''muon'', 44), (''tau'', 68), (''W_boson'', 100),
      (''Z_boson'', 100), (''higgs_boson'', 103)]"

text \<open>\<^verbatim>\<open>exact_q\<close> of \<^verbatim>\<open>q_pattern_analysis.py\<close> and of \<^verbatim>\<open>definitive_a5_model_fixed.py\<close>.\<close>

definition exact_q :: "(string \<times> int) list" where
  "exact_q =
     [(''electron_neutrino'', -224), (''muon_neutrino'', -180), (''tau_neutrino'', -162),
      (''electron'', 0), (''up_quark'', 12), (''down_quark'', 18), (''strange_quark'', 44),
      (''muon'', 44), (''charm_quark'', 65), (''tau'', 68), (''bottom_quark'', 75),
      (''top_quark'', 106), (''W_boson'', 100), (''Z_boson'', 100), (''higgs_boson'', 103)]"

record a5_particle =
  a5_name :: string
  a5_mass :: real
  a5_n :: real
  a5_q :: int
  a5_category :: string
  a5_spin :: real

text \<open>
  The body of the loop of \<^verbatim>\<open>load_data_with_exact_q\<close> (\<^verbatim>\<open>a5_casimir_ratio.py\<close>):
  \<^verbatim>\<open>n = log(mass/m_e) / log(phi)\<close>, \<^verbatim>\<open>q = exact_q_values.get(name, round(4 * n))\<close>, and the
  stored \<^verbatim>\<open>'n'\<close> is that \<^verbatim>\<open>n\<close>.
\<close>

definition exact_q_row :: "real \<Rightarrow> row \<Rightarrow> error + a5_particle" where
  "exact_q_row m_e r =
     bind_err (exponent (r_mass r) m_e) (\<lambda>n.
       let q = (case map_of exact_q_values (r_name r) of
                  Some v \<Rightarrow> v
                | None \<Rightarrow> round_py (4 * n))
       in Inr \<lparr>a5_name = r_name r, a5_mass = r_mass r, a5_n = n, a5_q = q,
               a5_category = r_category r,
               a5_spin = (case r_spin_half r of
                            None \<Rightarrow> 0
                          | Some s \<Rightarrow> if s = 0 then 0 else of_int s * 0.5)\<rparr>)"

definition load_data_with_exact_q :: "row list \<Rightarrow> error + (a5_particle list \<times> real)" where
  "load_data_with_exact_q db =
     bind_err (fetch_m_e db) (\<lambda>m_e.
     bind_err (for_each (exact_q_row m_e) (sort_key r_mass (filter (\<lambda>r. 0 < r_mass r) db)))
       (\<lambda>particles. Inr (particles, m_e)))"

record qp_particle =
  qp_name :: string
  qp_mass :: real
  qp_category :: string
  qp_q :: int
  qp_n :: real

text \<open>
  The body of the loop of \<^verbatim>\<open>load_data\<close> in \<^verbatim>\<open>q_pattern_analysis.py\<close>:
  \<^verbatim>\<open>n = exact_q[name] / 4\<close> and \<^verbatim>\<open>'q': exact_q[name]\<close>. \<^verbatim>\<open>load_data\<close> of
  \<^verbatim>\<open>definitive_a5_model_fixed.py\<close> computes \<^verbatim>\<open>'q'\<close> and \<^verbatim>\<open>'n'\<close> by the same two
  expressions over the same table (its further fields charge, spin and isospin are copied
  from the row).
\<close>

definition load_data_row :: "row \<Rightarrow> error + qp_particle" where
  "load_data_row r =
     bind_err (subscript exact_q (r_name r)) (\<lambda>q.
       Inr \<lparr>qp_name = r_name r, qp_mass = r_mass r, qp_category = r_category r,
            qp_q = q, qp_n = of_int q / 4\<rparr>)"

text \<open>\<^verbatim>\<open>load_data\<close>: rows \<^verbatim>\<open>WHERE mass_gev > 0\<close>, in the order of the table.\<close>

definition load_data :: "row list \<Rightarrow> error + (qp_particle list \<times> real)" where
  "load_data db =
     bind_err (fetch_m_e db) (\<lambda>m_e.
     bind_err (for_each load_data_row (filter (\<lambda>r. 0 < r_mass r) db))
       (\<lambda>particles. Inr (particles, m_e)))"

section \<open>q_pattern_analysis.py: express_q_as_combination\<close>

text \<open>\<^verbatim>\<open>range(lo, hi)\<close>: the integers from \<open>lo\<close> up to \<open>hi - 1\<close>.\<close>

definition range_py :: "int \<Rightarrow> int \<Rightarrow> int list" where
  "range_py lo hi = [lo..hi - 1]"

text \<open>
  The first search, for one \<^verbatim>\<open>q\<close>. The state is \<^verbatim>\<open>(best_error, best_coeffs)\<close>, with
  \<open>None\<close> for \<^verbatim>\<open>float('inf')\<close>. The body of the innermost loop:
  \<^verbatim>\<open>
  calculated = a*8 + b*15 + c*24
  d = q - calculated
  if abs(d) < 20:
      error = abs(d)
      if error < best_error:
          best_error = error
          best_coeffs = (a, b, c, d)
  \<close>
\<close>

type_synonym best = "int option \<times> (int \<times> int \<times> int \<times> int)"

definition best_fit_body :: "int \<Rightarrow> int \<Rightarrow> int \<Rightarrow> int \<Rightarrow> best \<Rightarrow> best" where
  "best_fit_body q a b c st =
     (let calculated = a * 8 + b * 15 + c * 24;
          d = q - calculated
      in if \<bar>d\<bar> < 20
         then (let error = \<bar>d\<bar>
               in if (case fst st of None \<Rightarrow> True | Some best_error \<Rightarrow> error < best_error)
                  then (Some error, (a, b, c, d))
                  else st)
         else st)"

text \<open>
  The three nested loops \<^verbatim>\<open>for a in range(-30, 31): for b in range(-20, 21):
  for c in range(-10, 11)\<close>, from \<^verbatim>\<open>best_error = float('inf')\<close> and
  \<^verbatim>\<open>best_coeffs = (0, 0, 0, 0)\<close>.
\<close>

definition best_fit :: "int \<Rightarrow> best" where
  "best_fit q =
     fold (\<lambda>a. fold (\<lambda>b. fold (\<lambda>c. best_fit_body q a b c) (range_py (-10) 11))
                    (range_py (-20) 21))
          (range_py (-30) 31) (None, (0, 0, 0, 0))"

text \<open>
  The second search, for one \<^verbatim>\<open>q\<close>: over \<^verbatim>\<open>range(-10, 11)\<close> on each axis,
  \<^verbatim>\<open>d = q - (a*8 + b*15 + c*24)\<close> and \<^verbatim>\<open>if abs(d) <= 10: representations.append((a, b, c, d))\<close>.
\<close>

definition representations_body ::
    "int \<Rightarrow> int \<Rightarrow> int \<Rightarrow> int \<Rightarrow> (int \<times> int \<times> int \<times> int) list
      \<Rightarrow> (int \<times> int \<times> int \<times> int) list" where
  "representations_body q a b c reps =
     (let d = q - (a * 8 + b * 15 + c * 24)
      in if \<bar>d\<bar> \<le> 10 then reps @ [(a, b, c, d)] else reps)"

definition representations :: "int \<Rightarrow> (int \<times> int \<times> int \<times> int) list" where
  "representations q =
     fold (\<lambda>a. fold (\<lambda>b. fold (\<lambda>c. representations_body q a b c) (range_py (-10) 11))
                    (range_py (-10) 11))
          (range_py (-10) 11) []"

text \<open>
  The order in which the three nested loops visit the triples: a ascending, then b, then c.
\<close>

definition lex3 :: "int \<times> int \<times> int \<Rightarrow> int \<times> int \<times> int \<Rightarrow> bool" where
  "lex3 t u = (case t of (a, b, c) \<Rightarrow> case u of (a', b', c') \<Rightarrow>
      a < a' \<or> (a = a' \<and> (b < b' \<or> (b = b' \<and> c < c'))))"

section \<open>model_builder_clean.py: predict_new_particles\<close>





section \<open>Facts about the numeric primitives\<close>

lemma phi_gt_1: "1 < phi"
proof -
  have "1 < sqrt 5" by simp
  then show ?thesis by (simp add: phi_def)
qed

lemma ln_phi_pos: "0 < ln phi"
  using phi_gt_1 by simp

lemma log_py_phi: "log_py phi = Inr (ln phi)"
  using phi_gt_1 by (simp add: log_py_def)

lemma exponent_pos:
  assumes "0 < mass" and "0 < m_e"
  shows "exponent mass m_e = Inr (ln (mass / m_e) / ln phi)"
proof -
  have r: "0 < mass / m_e" using assms by simp
  have d: "div_py mass m_e = Inr (mass / m_e)"
    using assms by (simp add: div_py_def)
  have l: "log_py (mass / m_e) = Inr (ln (mass / m_e))"
    using r by (simp add: log_py_def)
  have q: "div_py (ln (mass / m_e)) (ln phi) = Inr (ln (mass / m_e) / ln phi)"
    using ln_phi_pos by (simp add: div_py_def)
  show ?thesis
    unfolding exponent_def d l log_py_phi bind_err.simps q ..
qed

lemma round_py_of_int [simp]: "round_py (of_int k) = k"
  by (simp add: round_py_def)

lemma round_py_0 [simp]: "round_py 0 = 0"
  using round_py_of_int [of 0] by simp

lemma round_py_quarter: "round_py (4 * (of_int k / 4)) = k"
proof -
  have "4 * (of_int k / 4) = (of_int k :: real)" by simp
  then show ?thesis by simp
qed

section \<open>Exponent Quantizer\<close>



lemma quantum_row_Inr:
  assumes "exponent (r_mass r) m_e = Inr n"
  shows "quantum_row m_e r =
     Inr \<lparr>p_name = r_name r, p_mass = r_mass r, p_n = of_int (round_py (n * 4)) / 4,
          p_q = round_py (n * 4), p_category = r_category r,
          p_generation = (case r_generation r of None \<Rightarrow> 0 | Some g \<Rightarrow> g)\<rparr>"
  unfolding quantum_row_def assms bind_err.simps Let_def round_py_quarter ..

lemma load_row_Inr:
  assumes "exponent (r_mass r) m_e = Inr n"
  shows "load_row m_e r =
     Inr \<lparr>mb_name = r_name r, mb_mass = r_mass r, mb_n = of_int (round_py (n * 4)) / 4,
          mb_q = of_int (round_py (n * 4)), mb_category = r_category r,
          mb_spin = (case r_spin_half r of None \<Rightarrow> 0
                     | Some s \<Rightarrow> if s = 0 then 0 else of_int s * 0.5)\<rparr>"
  unfolding load_row_def assms bind_err.simps Let_def by simp




text \<open>
  C10. Whenever the raw exponent n is computed, the code stored by \<^verbatim>\<open>load_particle_data\<close>,
  \<^verbatim>\<open>q = n_quantized * 4\<close> with \<^verbatim>\<open>n_quantized = round(n * 4) / 4\<close>, is exactly the integer
  round(4 * n), and so is \<^verbatim>\<open>int(round(4 * n_quantized))\<close> of \<^verbatim>\<open>analyze_quantum_numbers\<close>:
  the stored code is an integer whatever n is.
\<close>

theorem code_is_integer:
  assumes "exponent (r_mass r) m_e = Inr n"
  shows "\<exists>p p'. load_row m_e r = Inr p \<and> quantum_row m_e r = Inr p'
           \<and> mb_q p = of_int (round_py (4 * n)) \<and> mb_q p \<in> \<int>
           \<and> mb_q p = 4 * mb_n p
           \<and> p_q p' = round_py (4 * n) \<and> of_int (p_q p') = 4 * p_n p'"
  using load_row_Inr [OF assms] quantum_row_Inr [OF assms]
  by (simp add: mult.commute)

theorem code_is_integer_witness:
  "\<exists>p p'. load_row 0.0005109989461
             \<lparr>r_name = ''electron'', r_mass = 0.0005109989461, r_category = ''lepton'',
              r_generation = Some 1, r_spin_half = Some 1\<rparr> = Inr p
        \<and> quantum_row 0.0005109989461
             \<lparr>r_name = ''electron'', r_mass = 0.0005109989461, r_category = ''lepton'',
              r_generation = Some 1, r_spin_half = Some 1\<rparr> = Inr p'
        \<and> mb_q p = 0 \<and> mb_q p \<in> \<int> \<and> mb_q p = 4 * mb_n p
        \<and> p_q p' = 0 \<and> of_int (p_q p') = 4 * p_n p'"
proof -
  have e: "exponent (r_mass \<lparr>r_name = ''electron'', r_mass = 0.0005109989461,
              r_category = ''lepton'', r_generation = Some 1, r_spin_half = Some 1\<rparr>)
            0.0005109989461 = Inr 0"
    using exponent_pos [of "0.0005109989461" "0.0005109989461"] by simp
  show ?thesis
    using code_is_integer [OF e] by simp
qed










section \<open>Errors at the quantizer\<close>




section \<open>The table of exact codes\<close>








section \<open>Basis Decomposer\<close>

lemma fold_product:
  "fold (\<lambda>(x, y). g x y) (List.product xs ys) st = fold (\<lambda>x. fold (g x) ys) xs st"
proof (induction xs arbitrary: st)
  case Nil
  then show ?case by simp
next
  case (Cons x xs)
  have "fold (\<lambda>(x, y). g x y) (map (Pair x) ys) st = fold (g x) ys st"
    by (simp add: fold_map comp_def)
  then show ?case using Cons.IH by simp
qed

lemma nested_loops:
  "fold (\<lambda>a. fold (\<lambda>b. fold (\<lambda>c. h a b c) cs) bs) as st
     = fold (\<lambda>(a, b, c). h a b c) (List.product as (List.product bs cs)) st"
proof -
  have "fold (\<lambda>(a, bc). fold (\<lambda>(b, c). h a b c) [bc]) (List.product as (List.product bs cs)) st
      = fold (\<lambda>a. fold (\<lambda>bc. fold (\<lambda>(b, c). h a b c) [bc]) (List.product bs cs)) as st"
    by (rule fold_product)
  moreover have "(\<lambda>(a, bc). fold (\<lambda>(b, c). h a b c) [bc]) = (\<lambda>(a, b, c). h a b c)"
    by (auto simp: fun_eq_iff)
  moreover have "(\<lambda>a. fold (\<lambda>bc. fold (\<lambda>(b, c). h a b c) [bc]) (List.product bs cs))
      = (\<lambda>a. fold (\<lambda>b. fold (\<lambda>c. h a b c) cs) bs)"
  proof
    fix a
    have "(\<lambda>bc. fold (\<lambda>(b, c). h a b c) [bc]) = (\<lambda>(b, c). h a b c)"
      by (auto simp: fun_eq_iff)
    then show "fold (\<lambda>bc. fold (\<lambda>(b, c). h a b c) [bc]) (List.product bs cs)
        = fold (\<lambda>b. fold (\<lambda>c. h a b c) cs) bs"
      using fold_product [of "h a" bs cs] by (simp add: fun_eq_iff)
  qed
  ultimately show ?thesis by simp
qed

lemma fold_collect:
  "fold (\<lambda>x reps. if P x then reps @ [g x] else reps) xs acc = acc @ map g (filter P xs)"
  by (induction xs arbitrary: acc) simp_all

lemma representations_flat:
  "representations q =
     map (\<lambda>(a, b, c). (a, b, c, q - (a * 8 + b * 15 + c * 24)))
       (filter (\<lambda>(a, b, c). \<bar>q - (a * 8 + b * 15 + c * 24)\<bar> \<le> 10)
         (List.product [-10..10] (List.product [-10..10] [-10..10])))"
proof -
  have b: "(\<lambda>(a, b, c). representations_body q a b c)
      = (\<lambda>x reps. if (case x of (a, b, c) \<Rightarrow> \<bar>q - (a * 8 + b * 15 + c * 24)\<bar> \<le> 10)
                   then reps @ [(case x of (a, b, c) \<Rightarrow> (a, b, c, q - (a * 8 + b * 15 + c * 24)))]
                   else reps)"
    by (auto simp: fun_eq_iff representations_body_def Let_def)
  have r: "range_py (-10) 11 = [-10..10]"
    by (simp add: range_py_def del: upto_rec_numeral)
  show ?thesis
    unfolding representations_def nested_loops b fold_collect r by simp
qed

lemma representations_mem:
  "(a, b, c, d) \<in> set (representations q) \<longleftrightarrow>
     a \<in> {-10..10} \<and> b \<in> {-10..10} \<and> c \<in> {-10..10}
     \<and> d = q - (a * 8 + b * 15 + c * 24) \<and> \<bar>d\<bar> \<le> 10"
  unfolding representations_flat
  by (auto simp del: upto_rec_numeral intro!: image_eqI [where x = "(a, b, c)"])

text \<open>
  C2, as the code has it. For every target q the second search of
  \<^verbatim>\<open>express_q_as_combination\<close> returns exactly the tuples (a, b, c, d) with a, b, c in the
  fixed box -10..10, d = q - (8a + 15b + 24c) and |d| <= 10: every exact triple of the box
  is there with d = 0, and so are the triples that miss q by up to 10. When nothing
  matches, as for q = 999999, the result is the empty list and nothing is raised.
\<close>

theorem representations_contents:
  "((a, b, c, d) \<in> set (representations q) \<longleftrightarrow>
      a \<in> {-10..10} \<and> b \<in> {-10..10} \<and> c \<in> {-10..10}
      \<and> d = q - (a * 8 + b * 15 + c * 24) \<and> \<bar>d\<bar> \<le> 10)
   \<and> (a \<in> {-10..10} \<and> b \<in> {-10..10} \<and> c \<in> {-10..10} \<longrightarrow>
        (a, b, c, 0) \<in> set (representations (a * 8 + b * 15 + c * 24)))
   \<and> representations 999999 = []"
proof -
  have "set (representations 999999) = {}"
  proof -
    have "x \<notin> set (representations 999999)" for x
    proof (cases x)
      case (fields a b c d)
      then show ?thesis using representations_mem [of a b c d 999999] by auto
    qed
    then show ?thesis by (intro equals0I) simp
  qed
  then show ?thesis
    using representations_mem [of a b c d q]
      representations_mem [of a b c 0 "a * 8 + b * 15 + c * 24"]
    by simp
qed

theorem representations_contents_witness:
  "(-3, 0, 1, 0) \<in> set (representations 0) \<and> representations 999999 = []"
  using representations_contents [of "-3" 0 1 0 0] by simp

text \<open>
  The claim as stated fails: for q = 1 the result contains (0, 0, 0) with offset 1,
  although 8*0 + 15*0 + 24*0 is not 1.
\<close>

theorem representations_exact_counterexample:
  "(0, 0, 0, 1) \<in> set (representations 1) \<and> (0::int) * 8 + 0 * 15 + 0 * 24 \<noteq> 1"
  using representations_mem [of 0 0 0 1 1] by simp

lemma first_min_fold:
  fixes key :: "'a \<Rightarrow> int" and P :: "'a \<Rightarrow> bool" and g :: "'a \<Rightarrow> 'b"
  defines "step \<equiv> \<lambda>x st. if P x \<and> (case fst st of None \<Rightarrow> True | Some e \<Rightarrow> key x < e)
                            then (Some (key x), g x) else st"
  shows "case fold step xs (None, dflt) of
           (None, c) \<Rightarrow> c = dflt \<and> (\<forall>x\<in>set xs. \<not> P x)
         | (Some e, c) \<Rightarrow>
             \<exists>ys x zs. xs = ys @ x # zs \<and> P x \<and> e = key x \<and> c = g x
               \<and> (\<forall>y\<in>set ys. P y \<longrightarrow> key x < key y)
               \<and> (\<forall>z\<in>set zs. P z \<longrightarrow> key x \<le> key z)"
proof (induction xs rule: rev_induct)
  case Nil
  then show ?case by simp
next
  case (snoc y xs)
  obtain e c where st: "fold step xs (None, dflt) = (e, c)" by (cases "fold step xs (None, dflt)")
  have f: "fold step (xs @ [y]) (None, dflt) = step y (e, c)" using st by simp
  show ?case
  proof (cases e)
    case None
    with snoc st have ih: "c = dflt" "\<forall>x\<in>set xs. \<not> P x" by simp_all
    show ?thesis
    proof (cases "P y")
      case True
      then have "step y (e, c) = (Some (key y), g y)" using None by (simp add: step_def)
      moreover have "\<exists>ys x zs. xs @ [y] = ys @ x # zs \<and> P x \<and> key y = key x \<and> g y = g x
               \<and> (\<forall>y\<in>set ys. P y \<longrightarrow> key x < key y)
               \<and> (\<forall>z\<in>set zs. P z \<longrightarrow> key x \<le> key z)"
        using True ih(2) by (intro exI [of _ xs] exI [of _ y] exI [of _ "[]"]) simp
      ultimately show ?thesis unfolding f by simp
    next
      case False
      then have "step y (e, c) = (None, dflt)" using None ih by (simp add: step_def)
      then show ?thesis unfolding f using False ih by simp
    qed
  next
    case (Some k)
    with snoc st obtain ys x zs where ih: "xs = ys @ x # zs" "P x" "k = key x" "c = g x"
        "\<forall>y\<in>set ys. P y \<longrightarrow> key x < key y" "\<forall>z\<in>set zs. P z \<longrightarrow> key x \<le> key z"
      by auto
    show ?thesis
    proof (cases "P y \<and> key y < k")
      case True
      then have "step y (e, c) = (Some (key y), g y)" using Some by (simp add: step_def)
      moreover have "\<exists>ys x zs. xs @ [y] = ys @ x # zs \<and> P x \<and> key y = key x \<and> g y = g x
               \<and> (\<forall>y\<in>set ys. P y \<longrightarrow> key x < key y)
               \<and> (\<forall>z\<in>set zs. P z \<longrightarrow> key x \<le> key z)"
        using True ih by (intro exI [of _ xs] exI [of _ y] exI [of _ "[]"]) fastforce
      ultimately show ?thesis unfolding f by simp
    next
      case False
      then have "step y (e, c) = (Some k, g x)" using Some ih by (auto simp add: step_def)
      moreover have "\<exists>ys' x' zs'. xs @ [y] = ys' @ x' # zs' \<and> P x' \<and> k = key x' \<and> g x = g x'
               \<and> (\<forall>y\<in>set ys'. P y \<longrightarrow> key x' < key y)
               \<and> (\<forall>z\<in>set zs'. P z \<longrightarrow> key x' \<le> key z)"
        using False ih by (intro exI [of _ ys] exI [of _ x] exI [of _ "zs @ [y]"]) auto
      ultimately show ?thesis unfolding f by simp
    qed
  qed
qed

lemma sorted_wrt_product:
  assumes "sorted_wrt R xs" and "sorted_wrt S ys"
  shows "sorted_wrt (\<lambda>(a, b) (a', b'). R a a' \<or> (a = a' \<and> S b b')) (List.product xs ys)"
  using assms(1)
proof (induction xs)
  case Nil
  then show ?case by simp
next
  case (Cons x xs)
  have "sorted_wrt (\<lambda>(a, b) (a', b'). R a a' \<or> (a = a' \<and> S b b')) (map (Pair x) ys)"
    using assms(2) by (auto simp: sorted_wrt_map intro: sorted_wrt_mono_rel)
  then show ?case
    using Cons by (auto simp: sorted_wrt_append)
qed

lemma box_sorted:
  "sorted_wrt lex3 (List.product [i..j] (List.product [k..l] [m..n]))"
proof -
  have "sorted_wrt (\<lambda>(a, bc) (a', bc'). a < a' \<or> (a = a' \<and>
          (case bc of (b, c) \<Rightarrow> case bc' of (b', c') \<Rightarrow> b < b' \<or> (b = b' \<and> c < c'))))
        (List.product [i..j] (List.product [k..l] [m..n]))"
  proof (rule sorted_wrt_product)
    have "sorted_wrt (\<lambda>(b, c) (b', c'). b < b' \<or> (b = b' \<and> c < c'))
        (List.product [k..l] [m..n])"
      by (rule sorted_wrt_product) simp_all
    moreover have "(\<lambda>(b, c) (b', c'). b < b' \<or> (b = b' \<and> c < c'))
        = (\<lambda>bc bc'. case bc of (b, c) \<Rightarrow> case bc' of (b', c') \<Rightarrow>
             (b::int) < b' \<or> (b = b' \<and> (c::int) < c'))"
      by (auto simp: fun_eq_iff)
    ultimately show "sorted_wrt (\<lambda>bc bc'. case bc of (b, c) \<Rightarrow> case bc' of (b', c') \<Rightarrow>
             b < b' \<or> (b = b' \<and> c < c')) (List.product [k..l] [m..n])"
      by simp
  qed simp
  moreover have "(\<lambda>(a, bc) (a', bc'). a < a' \<or> (a = a' \<and>
          (case bc of (b, c) \<Rightarrow> case bc' of (b', c') \<Rightarrow> b < b' \<or> (b = b' \<and> c < c')))) = lex3"
    by (auto simp: fun_eq_iff lex3_def)
  ultimately show ?thesis by simp
qed

lemma best_fit_flat:
  "best_fit q =
     fold (\<lambda>x st. if (case x of (a, b, c) \<Rightarrow> \<bar>q - (a * 8 + b * 15 + c * 24)\<bar> < 20)
                    \<and> (case fst st of None \<Rightarrow> True
                        | Some e \<Rightarrow> (case x of (a, b, c) \<Rightarrow> \<bar>q - (a * 8 + b * 15 + c * 24)\<bar>) < e)
                  then (Some (case x of (a, b, c) \<Rightarrow> \<bar>q - (a * 8 + b * 15 + c * 24)\<bar>),
                        (case x of (a, b, c) \<Rightarrow> (a, b, c, q - (a * 8 + b * 15 + c * 24))))
                  else st)
       (List.product [-30..30] (List.product [-20..20] [-10..10])) (None, (0, 0, 0, 0))"
proof -
  have b: "(\<lambda>(a, b, c). best_fit_body q a b c) =
      (\<lambda>x st. if (case x of (a, b, c) \<Rightarrow> \<bar>q - (a * 8 + b * 15 + c * 24)\<bar> < 20)
                    \<and> (case fst st of None \<Rightarrow> True
                        | Some e \<Rightarrow> (case x of (a, b, c) \<Rightarrow> \<bar>q - (a * 8 + b * 15 + c * 24)\<bar>) < e)
                  then (Some (case x of (a, b, c) \<Rightarrow> \<bar>q - (a * 8 + b * 15 + c * 24)\<bar>),
                        (case x of (a, b, c) \<Rightarrow> (a, b, c, q - (a * 8 + b * 15 + c * 24))))
                  else st)"
    by (auto simp: fun_eq_iff best_fit_body_def Let_def split: option.splits)
  have r: "range_py (-30) 31 = [-30..30]" "range_py (-20) 21 = [-20..20]"
      "range_py (-10) 11 = [-10..10]"
    by (simp_all add: range_py_def del: upto_rec_numeral)
  show ?thesis
    unfolding best_fit_def nested_loops b r ..
qed

lemma lex3_irrefl: "\<not> lex3 t t"
  by (auto simp: lex3_def split: prod.splits)

lemma lex3_asym: "lex3 t u \<Longrightarrow> \<not> lex3 u t"
  by (auto simp: lex3_def split: prod.splits)

lemma first_min_sorted:
  fixes key :: "'a \<Rightarrow> int" and P :: "'a \<Rightarrow> bool" and g :: "'a \<Rightarrow> 'b"
  assumes res: "fold (\<lambda>x st. if P x \<and> (case fst st of None \<Rightarrow> True | Some e \<Rightarrow> key x < e)
                            then (Some (key x), g x) else st) xs (None, dflt) = (Some e, r)"
    and srt: "sorted_wrt R xs"
    and irr: "\<And>t. \<not> R t t"
    and asym: "\<And>t u. R t u \<Longrightarrow> \<not> R u t"
  shows "\<exists>x\<in>set xs. P x \<and> e = key x \<and> r = g x
           \<and> (\<forall>t\<in>set xs. P t \<longrightarrow> key x \<le> key t \<and> (R t x \<longrightarrow> key x < key t))"
proof -
  from first_min_fold [where P = P and key = key and g = g and xs = xs and dflt = dflt]
  obtain ys x zs where dec: "xs = ys @ x # zs" and x: "P x" "e = key x" "r = g x"
      and before: "\<forall>y\<in>set ys. P y \<longrightarrow> key x < key y"
      and after: "\<forall>z\<in>set zs. P z \<longrightarrow> key x \<le> key z"
    unfolding res by auto
  from srt have ord: "\<forall>z\<in>set zs. R x z"
    unfolding dec by (simp add: sorted_wrt_append)
  have "key x \<le> key t \<and> (R t x \<longrightarrow> key x < key t)" if t: "t \<in> set xs" "P t" for t
  proof -
    from t(1) consider "t \<in> set ys" | "t = x" | "t \<in> set zs"
      unfolding dec by auto
    then show ?thesis
    proof cases
      case 1
      then show ?thesis using before t(2) by fastforce
    next
      case 2
      then show ?thesis using irr by simp
    next
      case 3
      then have "key x \<le> key t" using after t(2) by blast
      moreover have "\<not> R t x" using 3 ord asym by blast
      ultimately show ?thesis by simp
    qed
  qed
  moreover have "x \<in> set xs" unfolding dec by simp
  ultimately show ?thesis using x by blast
qed

lemma first_min_none:
  fixes key :: "'a \<Rightarrow> int" and P :: "'a \<Rightarrow> bool" and g :: "'a \<Rightarrow> 'b"
  assumes "fold (\<lambda>x st. if P x \<and> (case fst st of None \<Rightarrow> True | Some e \<Rightarrow> key x < e)
                            then (Some (key x), g x) else st) xs (None, dflt) = (None, r)"
  shows "r = dflt \<and> (\<forall>x\<in>set xs. \<not> P x)"
  using first_min_fold [where P = P and key = key and g = g and xs = xs and dflt = dflt]
  unfolding assms by simp

lemma box_mem:
  "(a, b, c) \<in> set (List.product [i..j] (List.product [k..l] [m..n]))
     \<longleftrightarrow> a \<in> {i..j} \<and> b \<in> {k..l} \<and> c \<in> {m..n}"
  by simp

lemma best_fit_none:
  assumes "best_fit q = (None, r)"
  shows "r = (0, 0, 0, 0)
       \<and> (\<forall>a\<in>{-30..30}. \<forall>b\<in>{-20..20}. \<forall>c\<in>{-10..10}.
             \<not> \<bar>q - (a * 8 + b * 15 + c * 24)\<bar> < 20)"
proof -
  have "r = (0, 0, 0, 0) \<and> (\<forall>x\<in>set (List.product [-30..30] (List.product [-20..20] [-10..10])).
      \<not> (case x of (a, b, c) \<Rightarrow> \<bar>q - (a * 8 + b * 15 + c * 24)\<bar> < 20))"
    by (rule first_min_none) (rule assms [unfolded best_fit_flat])
  then have r: "r = (0, 0, 0, 0)"
    and n: "\<And>x. x \<in> set (List.product [-30..30] (List.product [-20..20] [-10..10]))
      \<Longrightarrow> \<not> (case x of (a, b, c) \<Rightarrow> \<bar>q - (a * 8 + b * 15 + c * 24)\<bar> < 20)"
    by blast+
  have "\<not> \<bar>q - (a * 8 + b * 15 + c * 24)\<bar> < 20"
    if "a \<in> {-30..30}" "b \<in> {-20..20}" "c \<in> {-10..10}" for a b c
    using n [of "(a, b, c)"] that unfolding box_mem prod.case by blast
  with r show ?thesis by blast
qed

lemma best_fit_some:
  assumes "best_fit q = (Some e, (a, b, c, d))"
  shows "a \<in> {-30..30} \<and> b \<in> {-20..20} \<and> c \<in> {-10..10}
       \<and> d = q - (a * 8 + b * 15 + c * 24) \<and> e = \<bar>d\<bar> \<and> \<bar>d\<bar> < 20
       \<and> (\<forall>a'\<in>{-30..30}. \<forall>b'\<in>{-20..20}. \<forall>c'\<in>{-10..10}.
             \<bar>d\<bar> \<le> \<bar>q - (a' * 8 + b' * 15 + c' * 24)\<bar>
           \<and> (lex3 (a', b', c') (a, b, c) \<longrightarrow> \<bar>d\<bar> < \<bar>q - (a' * 8 + b' * 15 + c' * 24)\<bar>))"
proof -
  define T where "T = List.product [-30..30::int] (List.product [-20..20::int] [-10..10::int])"
  define P where "P = (\<lambda>x. case x of (a, b, c) \<Rightarrow> \<bar>q - (a * 8 + b * 15 + c * 24)\<bar> < 20)"
  define key where "key = (\<lambda>x. case x of (a, b, c) \<Rightarrow> \<bar>q - (a * 8 + b * 15 + c * 24)\<bar>)"
  define g where "g = (\<lambda>x. case x of (a, b, c) \<Rightarrow> (a, b, c, q - (a * 8 + b * 15 + c * 24)))"
  have mem: "(a', b', c') \<in> set T \<longleftrightarrow> a' \<in> {-30..30} \<and> b' \<in> {-20..20} \<and> c' \<in> {-10..10}"
    for a' b' c'
    unfolding T_def by (rule box_mem)
  have srt: "sorted_wrt lex3 T" unfolding T_def by (rule box_sorted)
  have res: "fold (\<lambda>x st. if P x \<and> (case fst st of None \<Rightarrow> True | Some e \<Rightarrow> key x < e)
                            then (Some (key x), g x) else st) T (None, (0, 0, 0, 0))
             = (Some e, (a, b, c, d))"
    unfolding T_def P_def key_def g_def by (rule assms [unfolded best_fit_flat])
  from first_min_sorted [OF res srt lex3_irrefl lex3_asym]
  obtain x where x: "x \<in> set T" "P x" "e = key x" "(a, b, c, d) = g x"
      and min: "\<And>t. t \<in> set T \<Longrightarrow> P t \<Longrightarrow> key x \<le> key t \<and> (lex3 t x \<longrightarrow> key x < key t)"
    by blast
  from x(4) have xe: "x = (a, b, c)" and d: "d = q - (a * 8 + b * 15 + c * 24)"
    unfolding g_def by (auto split: prod.splits)
  have box: "a \<in> {-30..30} \<and> b \<in> {-20..20} \<and> c \<in> {-10..10}"
    using x(1) unfolding xe mem .
  have kx: "key x = \<bar>d\<bar>" unfolding xe d key_def by simp
  have e: "e = \<bar>d\<bar>" "\<bar>d\<bar> < 20"
    using x(2,3) kx unfolding P_def key_def xe by simp_all
  have main: "\<bar>d\<bar> \<le> \<bar>q - (a' * 8 + b' * 15 + c' * 24)\<bar>
           \<and> (lex3 (a', b', c') (a, b, c) \<longrightarrow> \<bar>d\<bar> < \<bar>q - (a' * 8 + b' * 15 + c' * 24)\<bar>)"
    if "a' \<in> {-30..30}" "b' \<in> {-20..20}" "c' \<in> {-10..10}" for a' b' c'
  proof (cases "P (a', b', c')")
    case False
    then show ?thesis using e(2) unfolding P_def by simp
  next
    case True
    have "(a', b', c') \<in> set T" unfolding mem using that by blast
    from min [OF this True] show ?thesis
      unfolding xe key_def d by simp
  qed
  show ?thesis using box d e main by blast
qed

text \<open>
  C3, as the code has it. For every target q the first search of
  \<^verbatim>\<open>express_q_as_combination\<close> keeps one triple. When no triple of the box
  -30..30 x -20..20 x -10..10 comes within 20 of q, it keeps the initial (0, 0, 0, 0).
  Otherwise the kept (a, b, c, d) has d = q - (8a + 15b + 24c), its |d| is minimal over the
  whole box, and it is the first such triple in the order of the loops: every triple
  visited earlier has a strictly larger residual. The tie-break is the loop order, not
  |a| + |b| + |c|.
\<close>

theorem best_fit_first_minimum:
  "(\<forall>r. best_fit q = (None, r) \<longrightarrow>
       r = (0, 0, 0, 0)
     \<and> (\<forall>a\<in>{-30..30}. \<forall>b\<in>{-20..20}. \<forall>c\<in>{-10..10}.
           \<not> \<bar>q - (a * 8 + b * 15 + c * 24)\<bar> < 20))
 \<and> (\<forall>e a b c d. best_fit q = (Some e, (a, b, c, d)) \<longrightarrow>
       a \<in> {-30..30} \<and> b \<in> {-20..20} \<and> c \<in> {-10..10}
     \<and> d = q - (a * 8 + b * 15 + c * 24) \<and> e = \<bar>d\<bar> \<and> \<bar>d\<bar> < 20
     \<and> (\<forall>a'\<in>{-30..30}. \<forall>b'\<in>{-20..20}. \<forall>c'\<in>{-10..10}.
           \<bar>d\<bar> \<le> \<bar>q - (a' * 8 + b' * 15 + c' * 24)\<bar>
         \<and> (lex3 (a', b', c') (a, b, c) \<longrightarrow> \<bar>d\<bar> < \<bar>q - (a' * 8 + b' * 15 + c' * 24)\<bar>)))"
  using best_fit_none [of q] best_fit_some [of q] by blast

theorem best_fit_first_minimum_witness:
  "best_fit 999999 = (None, (0, 0, 0, 0))
   \<and> (\<exists>a b c. best_fit 0 = (Some 0, (a, b, c, 0)) \<and> a * 8 + b * 15 + c * 24 = 0)"
proof
  obtain e a b c d where r: "best_fit 999999 = (e, (a, b, c, d))"
    by (metis surj_pair)
  show "best_fit 999999 = (None, (0, 0, 0, 0))"
  proof (cases e)
    case None
    then show ?thesis using r best_fit_first_minimum [of 999999] by simp
  next
    case (Some k)
    with r best_fit_first_minimum [of 999999]
    have "a \<in> {-30..30} \<and> b \<in> {-20..20} \<and> c \<in> {-10..10}
        \<and> d = 999999 - (a * 8 + b * 15 + c * 24) \<and> \<bar>d\<bar> < 20"
      by blast
    then have False by (elim conjE) simp
    then show ?thesis ..
  qed
next
  obtain e a b c d where r: "best_fit 0 = (e, (a, b, c, d))"
    by (metis surj_pair)
  have z: "(0::int) \<in> {-30..30}" "(0::int) \<in> {-20..20}" "(0::int) \<in> {-10..10}" by simp_all
  show "\<exists>a b c. best_fit 0 = (Some 0, (a, b, c, 0)) \<and> a * 8 + b * 15 + c * 24 = 0"
  proof (cases e)
    case None
    with r best_fit_first_minimum [of 0]
    have "\<forall>a\<in>{-30..30}. \<forall>b\<in>{-20..20}. \<forall>c\<in>{-10..10}.
           \<not> \<bar>0 - (a * 8 + b * 15 + c * 24)\<bar> < (20::int)"
      by blast
    with z have "\<not> \<bar>0 - (0 * 8 + 0 * 15 + 0 * 24)\<bar> < (20::int)" by blast
    then show ?thesis by simp
  next
    case (Some k)
    with r best_fit_first_minimum [of 0]
    have p: "d = 0 - (a * 8 + b * 15 + c * 24)" "k = \<bar>d\<bar>"
      and m: "\<forall>a'\<in>{-30..30}. \<forall>b'\<in>{-20..20}. \<forall>c'\<in>{-10..10}.
           \<bar>d\<bar> \<le> \<bar>0 - (a' * 8 + b' * 15 + c' * 24)\<bar>"
      by blast+
    from m z have "\<bar>d\<bar> \<le> \<bar>0 - (0 * 8 + 0 * 15 + 0 * 24)\<bar>" by blast
    then have "d = 0" by simp
    then show ?thesis using r Some p by auto
  qed
qed

text \<open>
  The claim as stated fails: for q = 0 the search keeps (-30, 0, 10) with offset 0,
  although (0, 0, 0) is in the box with the same residual 0 and a smaller
  |a| + |b| + |c|.
\<close>

theorem best_fit_tie_break_counterexample:
  "best_fit 0 = (Some 0, (-30, 0, 10, 0))
   \<and> \<bar>0 - (0 * 8 + 0 * 15 + 0 * 24)\<bar> = (0::int)
   \<and> \<bar>0::int\<bar> + \<bar>0\<bar> + \<bar>0\<bar> < \<bar>-30\<bar> + \<bar>0\<bar> + \<bar>10\<bar>"
proof -
  obtain e a b c d where r: "best_fit 0 = (e, (a, b, c, d))"
    by (metis surj_pair)
  have z: "(0::int) \<in> {-30..30}" "(0::int) \<in> {-20..20}" "(0::int) \<in> {-10..10}" by simp_all
  have w: "(-30::int) \<in> {-30..30}" "(10::int) \<in> {-10..10}" by simp_all
  have "best_fit 0 = (Some 0, (-30, 0, 10, 0))"
  proof (cases e)
    case None
    with r best_fit_none [of 0 "(a, b, c, d)"]
    have "\<forall>a\<in>{-30..30}. \<forall>b\<in>{-20..20}. \<forall>c\<in>{-10..10}.
           \<not> \<bar>0 - (a * 8 + b * 15 + c * 24)\<bar> < (20::int)"
      by blast
    with z have "\<not> \<bar>0 - (0 * 8 + 0 * 15 + 0 * 24)\<bar> < (20::int)" by blast
    then show ?thesis by simp
  next
    case (Some k)
    with r best_fit_some [of 0 k a b c d]
    have box: "a \<in> {-30..30}" "b \<in> {-20..20}" "c \<in> {-10..10}"
      and p: "d = 0 - (a * 8 + b * 15 + c * 24)" "k = \<bar>d\<bar>"
      and m: "\<forall>a'\<in>{-30..30}. \<forall>b'\<in>{-20..20}. \<forall>c'\<in>{-10..10}.
           \<bar>d\<bar> \<le> \<bar>0 - (a' * 8 + b' * 15 + c' * 24)\<bar>
           \<and> (lex3 (a', b', c') (a, b, c) \<longrightarrow> \<bar>d\<bar> < \<bar>0 - (a' * 8 + b' * 15 + c' * 24)\<bar>)"
      by blast+
    from m z have "\<bar>d\<bar> \<le> \<bar>0 - (0 * 8 + 0 * 15 + 0 * 24)\<bar>" by blast
    then have d0: "d = 0" by simp
    from m w z(2) have "lex3 (-30, 0, 10) (a, b, c)
        \<longrightarrow> \<bar>d\<bar> < \<bar>0 - (-30 * 8 + 0 * 15 + 10 * 24)\<bar>" by blast
    then have nl: "\<not> lex3 (-30, 0, 10) (a, b, c)" using d0 by simp
    have "a = -30 \<and> b = 0 \<and> c = 10"
      using nl box p(1) d0 unfolding lex3_def prod.case by simp arith
    then show ?thesis using r Some p d0 by simp
  qed
  then show ?thesis by simp
qed

section \<open>Predictor\<close>











section \<open>The muon against the electron\<close>

lemma sqrt5_bounds: "2236 / 1000 < sqrt 5" "sqrt 5 < 22361 / 10000"
  by (rule real_less_rsqrt, simp add: power2_eq_square)
     (rule real_less_lsqrt, simp_all add: power2_eq_square)

lemma phi_bounds: "1618 / 1000 < phi" "phi < 161805 / 100000"
  using sqrt5_bounds by (simp_all add: phi_def)

lemma phi_square: "phi * phi = phi + 1"
proof -
  have "sqrt 5 * sqrt 5 = 5" by simp
  then show ?thesis by (simp add: phi_def field_simps)
qed

lemma phi_pow_11: "phi ^ 11 = 89 * phi + 55"
proof -
  have p2: "phi ^ 2 = phi + 1" using phi_square by (simp add: power2_eq_square)
  have p4: "phi ^ 4 = 3 * phi + 2"
  proof -
    have "phi ^ 4 = phi ^ 2 * phi ^ 2" by (simp add: power_add [symmetric])
    also have "\<dots> = phi * phi + 2 * phi + 1" unfolding p2 by (simp add: algebra_simps)
    finally show ?thesis unfolding phi_square by simp
  qed
  have p8: "phi ^ 8 = 21 * phi + 13"
  proof -
    have "phi ^ 8 = phi ^ 4 * phi ^ 4" by (simp add: power_add [symmetric])
    also have "\<dots> = 9 * (phi * phi) + 12 * phi + 4" unfolding p4 by (simp add: algebra_simps)
    finally show ?thesis unfolding phi_square by simp
  qed
  have p3: "phi ^ 3 = 2 * phi + 1"
  proof -
    have "phi ^ 3 = phi ^ 2 * phi" by (simp add: power_Suc2 [symmetric] eval_nat_numeral)
    also have "\<dots> = phi * phi + phi" unfolding p2 by (simp add: algebra_simps)
    finally show ?thesis unfolding phi_square by simp
  qed
  have "phi ^ 11 = phi ^ 8 * phi ^ 3" by (simp add: power_add [symmetric])
  also have "\<dots> = 42 * (phi * phi) + 47 * phi + 13" unfolding p8 p3 by (simp add: algebra_simps)
  finally show ?thesis unfolding phi_square by simp
qed

lemma muon_ratio_bounds:
  "103 / 100 * phi ^ 11 < 0.1056583745 / 0.0005109989461"
  "0.1056583745 / 0.0005109989461 < 10392 / 10000 * phi ^ 11"
  unfolding phi_pow_11 using phi_bounds by simp_all

lemma muon_exponent_bounds:
  "11 + 1 / 20 < ln (0.1056583745 / 0.0005109989461) / ln phi"
  "ln (0.1056583745 / 0.0005109989461) / ln phi < 11 + 2 / 25"
proof -
  let ?r = "0.1056583745 / 0.0005109989461 :: real"
  define t where "t = ?r / phi ^ 11"
  have phi_pos: "0 < phi" using phi_gt_1 by simp
  have p11: "0 < phi ^ 11" using phi_pos by simp
  have tl: "103 / 100 < t"
    unfolding t_def using muon_ratio_bounds(1) p11 by (simp add: pos_less_divide_eq)
  have tu: "t < 10392 / 10000"
    unfolding t_def using muon_ratio_bounds(2) p11 by (simp add: pos_divide_less_eq)
  have t_pos: "0 < t" using tl by simp
  have r: "?r = t * phi ^ 11" unfolding t_def using p11 by simp
  have "ln ?r = ln t + ln (phi ^ 11)"
    unfolding r using t_pos p11 by (rule ln_mult_pos)
  also have "ln (phi ^ 11) = 11 * ln phi"
    using phi_pos by (simp add: ln_realpow)
  finally have n: "ln ?r / ln phi = 11 + ln t / ln phi"
    using ln_phi_pos by (simp add: field_simps)
  have "phi < 162 / 100" using phi_bounds(2) by simp
  also have "\<dots> < (103 / 100) ^ 20" by (simp add: power_divide)
  also have "\<dots> < t ^ 20" using tl by (intro power_strict_mono) simp_all
  finally have "phi < t ^ 20" .
  moreover have "0 < t ^ 20" using t_pos by simp
  ultimately have "ln phi < ln (t ^ 20)"
    using phi_pos by (subst ln_less_cancel_iff) assumption+
  also have "\<dots> = 20 * ln t" using t_pos by (simp add: ln_realpow)
  finally have lo: "1 / 20 < ln t / ln phi"
    using ln_phi_pos by (simp add: field_simps)
  have "t ^ 25 < (10392 / 10000) ^ 25" using tu t_pos by (intro power_strict_mono) simp_all
  also have "\<dots> < 2618 / 1000" by (simp add: power_divide)
  also have "\<dots> < phi + 1" using phi_bounds(1) by simp
  also have "\<dots> = phi ^ 2" using phi_square by (simp add: power2_eq_square)
  finally have "t ^ 25 < phi ^ 2" .
  moreover have "0 < t ^ 25" "0 < phi ^ 2" using t_pos phi_pos by simp_all
  ultimately have "ln (t ^ 25) < ln (phi ^ 2)"
    by (subst ln_less_cancel_iff) assumption+
  then have "25 * ln t < 2 * ln phi" using t_pos phi_pos by (simp add: ln_realpow)
  then have hi: "ln t / ln phi < 2 / 25"
    using ln_phi_pos by (simp add: field_simps)
  show "11 + 1 / 20 < ln ?r / ln phi" unfolding n using lo by simp
  show "ln ?r / ln phi < 11 + 2 / 25" unfolding n using hi by simp
qed

lemma round_py_lower_half:
  assumes "of_int k \<le> x" and "x < of_int k + 1 / 2"
  shows "round_py x = k"
proof -
  have "\<lfloor>x\<rfloor> = k" using assms by (intro floor_unique) simp_all
  then show ?thesis using assms by (simp add: round_py_def)
qed

lemma near_eleven:
  fixes n :: real
  assumes "11 + 1 / 20 < n" and "n < 11 + 2 / 25"
  shows "round_py (n * 4) = 44" and "\<bar>n - 11\<bar> < 0.08" and "\<not> \<bar>n - 11\<bar> \<le> 0.05"
proof -
  show "round_py (n * 4) = 44"
    using assms by (intro round_py_lower_half) simp_all
  show "\<bar>n - 11\<bar> < 0.08" using assms by simp
  show "\<not> \<bar>n - 11\<bar> \<le> 0.05" using assms by simp
qed

text \<open>
  C5, as the code has it. For mass = 0.1056583745 and reference = 0.0005109989461 the raw
  exponent is within 0.08 of 11 (it lies between 11.05 and 11.08), and the integer code
  stored by \<^verbatim>\<open>analyze_quantum_numbers\<close> is 44.
\<close>

theorem muon_exponent:
  "\<exists>n p. exponent 0.1056583745 0.0005109989461 = Inr n
      \<and> \<bar>n - 11\<bar> < 0.08
      \<and> quantum_row 0.0005109989461
           \<lparr>r_name = ''muon'', r_mass = 0.1056583745, r_category = ''lepton'',
            r_generation = Some 2, r_spin_half = Some 1\<rparr> = Inr p
      \<and> p_q p = 44"
proof -
  let ?n = "ln (0.1056583745 / 0.0005109989461) / ln phi"
  let ?r = "\<lparr>r_name = ''muon'', r_mass = 0.1056583745, r_category = ''lepton'',
            r_generation = Some 2, r_spin_half = Some 1\<rparr>"
  have e: "exponent 0.1056583745 0.0005109989461 = Inr ?n"
    by (rule exponent_pos) simp_all
  then have e': "exponent (r_mass ?r) 0.0005109989461 = Inr ?n" by simp
  have b: "11 + 1 / 20 < ?n" "?n < 11 + 2 / 25" by (rule muon_exponent_bounds)+
  have "round_py (?n * 4) = 44"
    using b by (rule near_eleven)
  then have "p_q (projr (quantum_row 0.0005109989461 ?r)) = 44"
    unfolding quantum_row_Inr [OF e'] by simp
  moreover have "quantum_row 0.0005109989461 ?r = Inr (projr (quantum_row 0.0005109989461 ?r))"
    unfolding quantum_row_Inr [OF e'] by simp
  moreover have "\<bar>?n - 11\<bar> < 0.08" using b by (rule near_eleven)
  ultimately show ?thesis using e by blast
qed

text \<open>
  The claim as stated fails: the raw exponent is more than 0.05 away from 11.
\<close>

theorem muon_exponent_tolerance_counterexample:
  "\<exists>n. exponent 0.1056583745 0.0005109989461 = Inr n \<and> \<not> \<bar>n - 11\<bar> \<le> 0.05"
proof -
  let ?n = "ln (0.1056583745 / 0.0005109989461) / ln phi"
  have e: "exponent 0.1056583745 0.0005109989461 = Inr ?n"
    by (rule exponent_pos) simp_all
  have "\<not> \<bar>?n - 11\<bar> \<le> 0.05" by (rule near_eleven) (rule muon_exponent_bounds)+
  with e show ?thesis by blast
qed

end
